theory Spec2Isabelle
  imports Main
begin

section \<open>The backfill of \<open>currentEnvironmentId\<close> (migration 1686829426671)\<close>

text \<open>
  The migration \<^verbatim>\<open>BackFillCurrentEnvironmentId1686829426671\<close> loads every
  Organization with its environments and, for each of them, loads every App with its
  versions and updates each version's \<open>currentEnvironmentId\<close>. This theory embeds
  \<^verbatim>\<open>up\<close>, \<^verbatim>\<open>backFillNewColumn\<close> and \<^verbatim>\<open>down\<close> as functions on an explicit
  entity manager and proves what they do to the store.
\<close>

subsection \<open>Entities\<close>

text \<open>
  Modelled from the spec: the entity classes \<^verbatim>\<open>Organization\<close>, \<^verbatim>\<open>App\<close>,
  \<^verbatim>\<open>AppVersion\<close> (imported from \<^verbatim>\<open>src/entities\<close>) and the environment entity
  behind the relation \<^verbatim>\<open>appEnvironments\<close> are not among the source files. The
  records carry the attributes of the spec's data model (section 3): identifiers, the
  default flag of an environment, the owning Organization of an App, and the new
  reference of an AppVersion. Identifiers are strings. A relation that the migration
  loads (\<^verbatim>\<open>relations: ['appEnvironments']\<close>, \<^verbatim>\<open>relations: ['appVersions']\<close>) is the
  list of the owned records, in the order the store returns them. \<open>ver_name\<close> stands
  for the columns of a version that the migration never mentions.
\<close>

type_synonym uuid = string

record AppEnvironment =
  env_id :: uuid
  isDefault :: bool

record AppVersion =
  ver_id :: uuid
  ver_name :: string
  currentEnvironmentId :: "uuid option"

record Organization =
  org_id :: uuid
  appEnvironments :: "AppEnvironment list"

record App =
  app_id :: uuid
  organizationId :: uuid
  appVersions :: "AppVersion list"

record store =
  organizations :: "Organization list"
  apps :: "App list"

subsection \<open>The entity manager\<close>

text \<open>
  The state the migration runs on, in three parts.
  \<^item> \<open>inflight\<close>: the updates that were handed to the manager and whose promise nobody
    holds, in the order they were issued, each a version identifier and the environment
    identifier to write. The source never awaits an update, so the run only ever appends
    to this list.
  \<^item> \<open>db\<close>: the store with none of the updates of \<open>inflight\<close> executed. The run never
    rewrites it. It is \<^emph>\<open>not\<close> the store as it stands at a given moment: the connection
    executes the updates of \<open>inflight\<close> in the order of issue at moments the source does not
    control, during a later awaited call or after the run. The store at a moment is \<open>db\<close>
    with the first \<open>n\<close> updates of \<open>inflight\<close> executed, for the \<open>n\<close> the connection has
    reached (\<open>executed n\<close> below); \<open>settle\<close> is the case where it has reached the end.
  \<^item> \<open>console\<close>: the lines written to the console (the version identifier of each line).
\<close>

record EntityManager =
  db :: store
  inflight :: "(uuid \<times> uuid) list"
  console :: "uuid list"

datatype error = TypeError

text \<open>\<^verbatim>\<open>manager.find(Organization, {relations: ['appEnvironments']})\<close>\<close>

definition manager_find_Organization :: "EntityManager \<Rightarrow> Organization list" where
  "manager_find_Organization m = organizations (db m)"

text \<open>
  \<^verbatim>\<open>manager.find(App, {relations: ['appVersions']})\<close>: there is no \<^verbatim>\<open>where\<close>
  clause, so every App of the store is returned. The versions are read from \<open>db\<close>; read from
  the store at the moment of the call they could differ in \<open>currentEnvironmentId\<close>, which the
  migration never reads (see \<open>for_organizations_at\<close>).
\<close>

definition manager_find_App :: "EntityManager \<Rightarrow> App list" where
  "manager_find_App m = apps (db m)"

text \<open>
  \<^verbatim>\<open>manager.update(AppVersion, {id: i}, {currentEnvironmentId: e})\<close> as the source
  calls it, with no \<^verbatim>\<open>await\<close>: the update is handed to the manager and the promise
  is dropped.
\<close>

definition manager_update :: "uuid \<Rightarrow> uuid \<Rightarrow> EntityManager \<Rightarrow> EntityManager" where
  "manager_update i e m = m\<lparr>inflight := inflight m @ [(i, e)]\<rparr>"

definition console_log :: "uuid \<Rightarrow> EntityManager \<Rightarrow> EntityManager" where
  "console_log i m = m\<lparr>console := console m @ [i]\<rparr>"

text \<open>
  What one update does to the store once the connection executes it: every AppVersion
  row with the given identifier gets the new reference, nothing else changes.
\<close>

definition set_env :: "uuid \<Rightarrow> uuid \<Rightarrow> AppVersion \<Rightarrow> AppVersion" where
  "set_env i e v = (if ver_id v = i then v\<lparr>currentEnvironmentId := Some e\<rparr> else v)"

definition exec_update :: "uuid \<times> uuid \<Rightarrow> store \<Rightarrow> store" where
  "exec_update w s =
     s\<lparr>apps := map (\<lambda>a. a\<lparr>appVersions := map (set_env (fst w) (snd w)) (appVersions a)\<rparr>)
                 (apps s)\<rparr>"

text \<open>
  The connection of the transaction executes the updates it was handed one after the other,
  in the order of issue. \<open>settle\<close> is the manager once all of them have been executed.
\<close>

definition settle :: "EntityManager \<Rightarrow> EntityManager" where
  "settle m = m\<lparr>db := foldl (\<lambda>s w. exec_update w s) (db m) (inflight m), inflight := []\<rparr>"

text \<open>
  The manager once the connection has executed the first \<open>n\<close> of the updates it was handed
  (all of them when \<open>n\<close> is the length of the list or more).
\<close>

definition executed :: "nat \<Rightarrow> EntityManager \<Rightarrow> EntityManager" where
  "executed n m =
     m\<lparr>db := foldl (\<lambda>s w. exec_update w s) (db m) (take n (inflight m)),
       inflight := drop n (inflight m)\<rparr>"

subsection \<open>The migration\<close>

text \<open>
  \<^verbatim>\<open>organization.appEnvironments.find((appEnvironment) => appEnvironment.isDefault)\<close>:
  the first element that satisfies the predicate, \<^verbatim>\<open>undefined\<close> (\<open>None\<close>) when there
  is none.
\<close>

definition productionEnvironment :: "Organization \<Rightarrow> AppEnvironment option" where
  "productionEnvironment organization = List.find isDefault (appEnvironments organization)"

text \<open>
  The innermost loop, lines 25 to 34. The line is logged first; then the arguments of
  \<^verbatim>\<open>manager.update\<close> are evaluated, and \<^verbatim>\<open>productionEnvironment.id\<close> throws a
  \<^verbatim>\<open>TypeError\<close> when \<^verbatim>\<open>productionEnvironment\<close> is \<^verbatim>\<open>undefined\<close>, before the
  update is issued.
\<close>

fun for_appVersions ::
  "AppEnvironment option \<Rightarrow> AppVersion list \<Rightarrow> EntityManager \<Rightarrow> (error + unit) \<times> EntityManager"
where
  "for_appVersions pe [] m = (Inr (), m)"
| "for_appVersions pe (appVersion # rest) m =
     (let m1 = console_log (ver_id appVersion) m in
      case pe of
        None \<Rightarrow> (Inl TypeError, m1)
      | Some env \<Rightarrow> for_appVersions pe rest (manager_update (ver_id appVersion) (env_id env) m1))"

text \<open>The loop over the loaded Apps, lines 24 to 35.\<close>

fun for_apps ::
  "AppEnvironment option \<Rightarrow> App list \<Rightarrow> EntityManager \<Rightarrow> (error + unit) \<times> EntityManager"
where
  "for_apps pe [] m = (Inr (), m)"
| "for_apps pe (app # rest) m =
     (case for_appVersions pe (appVersions app) m of
        (Inl err, m') \<Rightarrow> (Inl err, m')
      | (Inr u, m') \<Rightarrow> for_apps pe rest m')"

text \<open>The loop over the Organizations, lines 18 to 36.\<close>

fun for_organizations ::
  "Organization list \<Rightarrow> EntityManager \<Rightarrow> (error + unit) \<times> EntityManager"
where
  "for_organizations [] m = (Inr (), m)"
| "for_organizations (organization # rest) m =
     (let pe = productionEnvironment organization;
          loaded = manager_find_App m in
      case for_apps pe loaded m of
        (Inl err, m') \<Rightarrow> (Inl err, m')
      | (Inr u, m') \<Rightarrow> for_organizations rest m')"

text \<open>
  The same loop with the \<^verbatim>\<open>await\<close> of line 20 spelled out. While the migration waits for
  the load, the connection executes updates of earlier passes that nobody awaited;
  \<open>progress\<close> says how many of the updates issued so far it has executed when the load is
  answered, and the Apps are read from the store as it stands then. The loop reads nothing
  but the identifiers of the loaded versions, which no update changes, so it does the same
  for every \<open>progress\<close> as \<open>for_organizations\<close> does (lemma \<open>for_organizations_at_eq\<close>).
\<close>

fun for_organizations_at ::
  "(EntityManager \<Rightarrow> nat) \<Rightarrow> Organization list \<Rightarrow> EntityManager \<Rightarrow>
     (error + unit) \<times> EntityManager"
where
  "for_organizations_at progress [] m = (Inr (), m)"
| "for_organizations_at progress (organization # rest) m =
     (let pe = productionEnvironment organization;
          loaded = manager_find_App (executed (progress m) m) in
      case for_apps pe loaded m of
        (Inl err, m') \<Rightarrow> (Inl err, m')
      | (Inr u, m') \<Rightarrow> for_organizations_at progress rest m')"

definition backFillNewColumn :: "EntityManager \<Rightarrow> (error + unit) \<times> EntityManager" where
  "backFillNewColumn manager = for_organizations (manager_find_Organization manager) manager"

text \<open>\<^verbatim>\<open>up\<close> awaits \<^verbatim>\<open>backFillNewColumn(queryRunner.manager)\<close>; \<^verbatim>\<open>down\<close> has an empty body.\<close>

definition up :: "EntityManager \<Rightarrow> (error + unit) \<times> EntityManager" where
  "up manager = backFillNewColumn manager"

definition down :: "EntityManager \<Rightarrow> (error + unit) \<times> EntityManager" where
  "down manager = (Inr (), manager)"

subsection \<open>Vocabulary for the statements\<close>

text \<open>Every AppVersion of the store, App after App, in the order the loops visit them.\<close>

definition allVersions :: "store \<Rightarrow> AppVersion list" where
  "allVersions s = concat (map appVersions (apps s))"

text \<open>The updates of one full pass with a resolved environment, in the order of issue.\<close>

definition pass_writes :: "AppEnvironment \<Rightarrow> AppVersion list \<Rightarrow> (uuid \<times> uuid) list" where
  "pass_writes env vs = map (\<lambda>v. (ver_id v, env_id env)) vs"

text \<open>
  The updates of the pass of one Organization over the given versions: one for each version
  when a default environment is resolved, none otherwise.
\<close>

definition org_writes :: "AppVersion list \<Rightarrow> Organization \<Rightarrow> (uuid \<times> uuid) list" where
  "org_writes vs organization =
     (case productionEnvironment organization of None \<Rightarrow> [] | Some env \<Rightarrow> pass_writes env vs)"

definition hasDefault :: "Organization \<Rightarrow> bool" where
  "hasDefault organization = (productionEnvironment organization \<noteq> None)"

text \<open>A list of updates executed, in order, on one AppVersion row.\<close>

definition apply_writes :: "(uuid \<times> uuid) list \<Rightarrow> AppVersion \<Rightarrow> AppVersion" where
  "apply_writes ws v = foldl (\<lambda>v w. set_env (fst w) (snd w) v) v ws"

definition map_versions :: "(AppVersion \<Rightarrow> AppVersion) \<Rightarrow> store \<Rightarrow> store" where
  "map_versions f s = s\<lparr>apps := map (\<lambda>a. a\<lparr>appVersions := map f (appVersions a)\<rparr>) (apps s)\<rparr>"

text \<open>
  A store with the \<open>currentEnvironmentId\<close> of every AppVersion blanked: two stores that agree
  after \<open>forget_envs\<close> have the same records, in the same order, with the same value in
  every other field.
\<close>

definition forget_env :: "AppVersion \<Rightarrow> AppVersion" where
  "forget_env v = v\<lparr>currentEnvironmentId := None\<rparr>"

definition forget_envs :: "store \<Rightarrow> store" where
  "forget_envs s = map_versions forget_env s"

subsection \<open>The stores of the scenarios\<close>

text \<open>
  The records of the spec's scenarios (section 8): Organization \<open>O1\<close> with the environments
  \<open>E1\<close> (default) and \<open>E2\<close> and the App \<open>A1\<close> with the versions \<open>V1\<close> and \<open>V2\<close>;
  Organization \<open>O2\<close> with the environment \<open>E3\<close> (default), without Apps in \<open>scenario\<close> and
  with the App \<open>A2\<close> (version \<open>V3\<close>) in \<open>regression\<close>. \<open>O0\<close> has no default environment,
  \<open>O4\<close> has two, and \<open>A0\<close> is an App without versions.
\<close>

definition E1 :: AppEnvironment where "E1 = \<lparr>env_id = ''E1'', isDefault = True\<rparr>"
definition E2 :: AppEnvironment where "E2 = \<lparr>env_id = ''E2'', isDefault = False\<rparr>"
definition E3 :: AppEnvironment where "E3 = \<lparr>env_id = ''E3'', isDefault = True\<rparr>"
definition E4 :: AppEnvironment where "E4 = \<lparr>env_id = ''E4'', isDefault = True\<rparr>"

definition V1 :: AppVersion where
  "V1 = \<lparr>ver_id = ''V1'', ver_name = ''v1'', currentEnvironmentId = None\<rparr>"
definition V2 :: AppVersion where
  "V2 = \<lparr>ver_id = ''V2'', ver_name = ''v2'', currentEnvironmentId = None\<rparr>"
definition V3 :: AppVersion where
  "V3 = \<lparr>ver_id = ''V3'', ver_name = ''v1'', currentEnvironmentId = None\<rparr>"

definition O0 :: Organization where "O0 = \<lparr>org_id = ''O0'', appEnvironments = [E2]\<rparr>"
definition O1 :: Organization where "O1 = \<lparr>org_id = ''O1'', appEnvironments = [E1, E2]\<rparr>"
definition O2 :: Organization where "O2 = \<lparr>org_id = ''O2'', appEnvironments = [E3]\<rparr>"
definition O4 :: Organization where "O4 = \<lparr>org_id = ''O4'', appEnvironments = [E2, E1, E4]\<rparr>"

definition A0 :: App where
  "A0 = \<lparr>app_id = ''A0'', organizationId = ''O0'', appVersions = []\<rparr>"
definition A1 :: App where
  "A1 = \<lparr>app_id = ''A1'', organizationId = ''O1'', appVersions = [V1, V2]\<rparr>"
definition A2 :: App where
  "A2 = \<lparr>app_id = ''A2'', organizationId = ''O2'', appVersions = [V3]\<rparr>"

text \<open>A manager on a store, with no update in flight and an empty console.\<close>

definition fresh :: "store \<Rightarrow> EntityManager" where
  "fresh s = \<lparr>db = s, inflight = [], console = []\<rparr>"

definition scenario :: store where
  "scenario = \<lparr>organizations = [O1, O2], apps = [A1]\<rparr>"

definition regression :: store where
  "regression = \<lparr>organizations = [O1, O2], apps = [A1, A2]\<rparr>"

lemmas concrete_defs = E1_def E2_def E3_def E4_def V1_def V2_def V3_def O0_def O1_def O2_def
  O4_def A0_def A1_def A2_def fresh_def scenario_def regression_def

lemmas run_defs = up_def backFillNewColumn_def manager_find_Organization_def
  manager_find_App_def manager_update_def console_log_def productionEnvironment_def
  settle_def exec_update_def set_env_def allVersions_def

section \<open>What the loops compute\<close>

lemma for_appVersions_Some:
  "for_appVersions (Some env) vs m =
     (Inr (), m\<lparr>inflight := inflight m @ pass_writes env vs,
                console := console m @ map ver_id vs\<rparr>)"
  by (induction vs arbitrary: m)
     (simp_all add: pass_writes_def manager_update_def console_log_def)

lemma for_appVersions_None:
  "for_appVersions None vs m =
     (case vs of [] \<Rightarrow> (Inr (), m) | v # rest \<Rightarrow> (Inl TypeError, console_log (ver_id v) m))"
  by (cases vs) simp_all

lemma for_apps_Some:
  "for_apps (Some env) as m =
     (Inr (), m\<lparr>inflight := inflight m @ pass_writes env (concat (map appVersions as)),
                console := console m @ map ver_id (concat (map appVersions as))\<rparr>)"
  by (induction as arbitrary: m)
     (simp_all add: for_appVersions_Some pass_writes_def)

lemma for_apps_None:
  "for_apps None as m =
     (case concat (map appVersions as) of
        [] \<Rightarrow> (Inr (), m)
      | v # rest \<Rightarrow> (Inl TypeError, console_log (ver_id v) m))"
proof (induction as arbitrary: m)
  case Nil
  show ?case by simp
next
  case (Cons a as)
  show ?case
    by (cases "appVersions a") (simp_all add: for_appVersions_None Cons.IH)
qed

lemma for_organizations_Some:
  assumes "productionEnvironment a = Some env"
  shows "for_organizations (a # os) m =
     for_organizations os
       (m\<lparr>inflight := inflight m @ pass_writes env (allVersions (db m)),
          console := console m @ map ver_id (allVersions (db m))\<rparr>)"
  using assms by (simp add: for_apps_Some manager_find_App_def allVersions_def)

lemma for_organizations_None_empty:
  assumes "productionEnvironment a = None" and "allVersions (db m) = []"
  shows "for_organizations (a # os) m = for_organizations os m"
proof -
  have "concat (map appVersions (apps (db m))) = []"
    using assms(2) by (simp add: allVersions_def)
  then have "for_apps None (apps (db m)) m = (Inr (), m)"
    unfolding for_apps_None by (simp only: list.case)
  then show ?thesis using assms(1) by (simp add: manager_find_App_def)
qed

lemma for_organizations_None_Cons:
  assumes "productionEnvironment a = None" and "allVersions (db m) = v # vs"
  shows "for_organizations (a # os) m = (Inl TypeError, console_log (ver_id v) m)"
proof -
  have "concat (map appVersions (apps (db m))) = v # vs"
    using assms(2) by (simp add: allVersions_def)
  then have "for_apps None (apps (db m)) m = (Inl TypeError, console_log (ver_id v) m)"
    unfolding for_apps_None by (simp only: list.case)
  then show ?thesis using assms(1) by (simp add: manager_find_App_def)
qed

lemma org_writes_Nil: "concat (map (org_writes []) os) = []"
  by (simp add: org_writes_def pass_writes_def split: option.splits)

lemma for_organizations_db: "db (snd (for_organizations os m)) = db m"
proof (induction os arbitrary: m)
  case Nil
  show ?case by simp
next
  case (Cons a os)
  show ?case
  proof (cases "productionEnvironment a")
    case (Some env)
    show ?thesis by (simp only: for_organizations_Some [OF Some] Cons.IH) simp
  next
    case None
    show ?thesis
    proof (cases "allVersions (db m)")
      case Nil
      show ?thesis by (simp only: for_organizations_None_empty [OF None Nil] Cons.IH)
    next
      case (Cons v vs)
      show ?thesis
        unfolding for_organizations_None_Cons [OF None Cons] by (simp add: console_log_def)
    qed
  qed
qed

lemma for_organizations_fst:
  "fst (for_organizations os m) =
     (if allVersions (db m) \<noteq> [] \<and> \<not> list_all hasDefault os then Inl TypeError else Inr ())"
proof (induction os arbitrary: m)
  case Nil
  show ?case by simp
next
  case (Cons a os)
  show ?case
  proof (cases "productionEnvironment a")
    case (Some env)
    show ?thesis
      by (simp only: for_organizations_Some [OF Some] Cons.IH) (simp add: hasDefault_def Some)
  next
    case None
    show ?thesis
    proof (cases "allVersions (db m)")
      case Nil
      show ?thesis
        by (simp only: for_organizations_None_empty [OF None Nil] Cons.IH) (simp add: Nil)
    next
      case (Cons v vs)
      show ?thesis
        unfolding for_organizations_None_Cons [OF None Cons]
        by (simp add: Cons hasDefault_def None)
    qed
  qed
qed

lemma for_organizations_inflight:
  "inflight (snd (for_organizations os m)) =
     inflight m @ concat (map (org_writes (allVersions (db m))) (takeWhile hasDefault os))"
proof (induction os arbitrary: m)
  case Nil
  show ?case by simp
next
  case (Cons a os)
  show ?case
  proof (cases "productionEnvironment a")
    case (Some env)
    show ?thesis
      by (simp only: for_organizations_Some [OF Some] Cons.IH)
         (simp add: hasDefault_def Some org_writes_def)
  next
    case None
    show ?thesis
    proof (cases "allVersions (db m)")
      case Nil
      show ?thesis
        by (simp only: for_organizations_None_empty [OF None Nil] Cons.IH)
           (simp add: Nil org_writes_Nil)
    next
      case (Cons v vs)
      show ?thesis
        unfolding for_organizations_None_Cons [OF None Cons]
        by (simp add: hasDefault_def None console_log_def)
    qed
  qed
qed

lemma for_organizations_console:
  "console (snd (for_organizations os m)) =
     console m @ concat (map (\<lambda>organization. map ver_id (allVersions (db m))) (takeWhile hasDefault os))
       @ (case allVersions (db m) of [] \<Rightarrow> [] | v # vs \<Rightarrow> if list_all hasDefault os then [] else [ver_id v])"
proof (induction os arbitrary: m)
  case Nil
  show ?case by (simp split: list.splits)
next
  case (Cons a os)
  show ?case
  proof (cases "productionEnvironment a")
    case (Some env)
    show ?thesis
      by (simp only: for_organizations_Some [OF Some] Cons.IH)
         (simp add: hasDefault_def Some split: list.splits)
  next
    case None
    show ?thesis
    proof (cases "allVersions (db m)")
      case Nil
      show ?thesis
        by (simp only: for_organizations_None_empty [OF None Nil] Cons.IH)
           (simp add: Nil)
    next
      case (Cons v vs)
      show ?thesis
        unfolding for_organizations_None_Cons [OF None Cons]
        by (simp add: hasDefault_def None console_log_def Cons)
    qed
  qed
qed

lemma exec_update_map_versions: "exec_update w s = map_versions (set_env (fst w) (snd w)) s"
  by (simp add: exec_update_def map_versions_def)

lemma map_versions_comp: "map_versions f (map_versions g s) = map_versions (f \<circ> g) s"
  by (simp add: map_versions_def comp_def)

lemma map_versions_id: "map_versions (\<lambda>v. v) s = s"
  by (simp add: map_versions_def)

lemma apply_writes_Nil: "apply_writes [] v = v"
  by (simp add: apply_writes_def)

lemma apply_writes_snoc: "apply_writes (ws @ [w]) v = set_env (fst w) (snd w) (apply_writes ws v)"
  by (simp add: apply_writes_def)

lemma apply_writes_append: "apply_writes (ws @ ws') v = apply_writes ws' (apply_writes ws v)"
  by (simp add: apply_writes_def)

lemma foldl_exec_update:
  "foldl (\<lambda>s w. exec_update w s) s ws = map_versions (apply_writes ws) s"
proof (induction ws rule: rev_induct)
  case Nil
  show ?case by (simp add: apply_writes_def map_versions_id)
next
  case (snoc w ws)
  have f: "set_env (fst w) (snd w) \<circ> apply_writes ws = apply_writes (ws @ [w])"
    by (rule ext) (simp add: apply_writes_snoc)
  have "foldl (\<lambda>s w. exec_update w s) s (ws @ [w]) =
          exec_update w (foldl (\<lambda>s w. exec_update w s) s ws)"
    by simp
  also have "\<dots> = map_versions (set_env (fst w) (snd w)) (map_versions (apply_writes ws) s)"
    unfolding snoc.IH by (rule exec_update_map_versions)
  also have "\<dots> = map_versions (apply_writes (ws @ [w])) s"
    by (simp only: map_versions_comp f)
  finally show ?case .
qed

lemma db_settle: "db (settle m) = map_versions (apply_writes (inflight m)) (db m)"
  by (simp add: settle_def foldl_exec_update)

lemma ver_id_apply_writes: "ver_id (apply_writes ws v) = ver_id v"
  by (induction ws rule: rev_induct) (simp_all add: apply_writes_Nil apply_writes_snoc set_env_def)

lemma ver_name_apply_writes: "ver_name (apply_writes ws v) = ver_name v"
  by (induction ws rule: rev_induct) (simp_all add: apply_writes_Nil apply_writes_snoc set_env_def)

lemma forget_env_apply_writes: "forget_env (apply_writes ws v) = forget_env v"
  by (induction ws rule: rev_induct)
     (simp_all add: apply_writes_Nil apply_writes_snoc set_env_def forget_env_def)

lemma apply_writes_eq:
  "apply_writes ws v =
     (case map_of (rev ws) (ver_id v) of None \<Rightarrow> v
      | Some e \<Rightarrow> v\<lparr>currentEnvironmentId := Some e\<rparr>)"
proof (induction ws rule: rev_induct)
  case Nil
  show ?case by (simp add: apply_writes_Nil)
next
  case (snoc w ws)
  show ?case
    by (cases w) (simp add: apply_writes_snoc snoc.IH set_env_def split: option.splits)
qed

lemma apply_writes_twice: "apply_writes ws (apply_writes ws v) = apply_writes ws v"
  by (simp add: apply_writes_eq [of ws "apply_writes ws v"] ver_id_apply_writes)
     (simp add: apply_writes_eq split: option.splits)

lemma organizations_map_versions: "organizations (map_versions f s) = organizations s"
  by (simp add: map_versions_def)

lemma allVersions_map_versions: "allVersions (map_versions f s) = map f (allVersions s)"
  by (simp add: map_versions_def allVersions_def map_concat comp_def)

lemma forget_envs_map_versions:
  "(\<And>v. forget_env (f v) = forget_env v) \<Longrightarrow> forget_envs (map_versions f s) = forget_envs s"
  by (simp add: forget_envs_def map_versions_def comp_def)

lemma pass_writes_apply_writes:
  "pass_writes env (map (apply_writes ws) vs) = pass_writes env vs"
  by (simp add: pass_writes_def ver_id_apply_writes)

lemma org_writes_apply_writes:
  "org_writes (map (apply_writes ws) vs) organization = org_writes vs organization"
  by (simp add: org_writes_def pass_writes_apply_writes split: option.splits)

lemma apply_pass_writes:
  assumes "ver_id v \<in> ver_id ` set vs"
  shows "currentEnvironmentId (apply_writes (ws @ pass_writes env vs) v) = Some (env_id env)"
proof -
  have "map_of (rev (pass_writes env vs)) (ver_id v) = Some (env_id env)"
    using assms by (induction vs rule: rev_induct) (auto simp: pass_writes_def)
  then show ?thesis
    by (simp add: apply_writes_eq [of "ws @ pass_writes env vs"] map_add_def)
qed

section \<open>The run as a whole\<close>

lemma up_fst:
  "fst (up m) =
     (if allVersions (db m) \<noteq> [] \<and> \<not> list_all hasDefault (manager_find_Organization m)
      then Inl TypeError else Inr ())"
  by (simp add: up_def backFillNewColumn_def for_organizations_fst)

lemma up_db: "db (snd (up m)) = db m"
  by (simp add: up_def backFillNewColumn_def for_organizations_db)

lemma up_inflight:
  "inflight (snd (up m)) =
     inflight m @ concat (map (org_writes (allVersions (db m)))
                              (takeWhile hasDefault (manager_find_Organization m)))"
  by (simp add: up_def backFillNewColumn_def for_organizations_inflight)

lemma db_settle_up:
  "db (settle (snd (up m))) = map_versions (apply_writes (inflight (snd (up m)))) (db m)"
  by (simp add: db_settle up_db)

text \<open>
  \<open>db\<close> of the manager is the store without the updates in flight: the run hands updates to
  the manager and never rewrites it. The store as it stands is reached through \<open>executed\<close>.
\<close>

lemma db_executed:
  "db (executed n m) = map_versions (apply_writes (take n (inflight m))) (db m)"
  by (simp add: executed_def foldl_exec_update)

lemma executed_all: "length (inflight m) \<le> n \<Longrightarrow> executed n m = settle m"
  by (simp add: executed_def settle_def)

text \<open>
  The loads of a pass do not depend on how many of the updates of earlier passes the
  connection has executed: executing updates changes neither the Organizations nor the
  identifier of any version.
\<close>

lemma loads_after_executed:
  "manager_find_Organization (executed n m) = manager_find_Organization m \<and>
   map (\<lambda>app. map ver_id (appVersions app)) (manager_find_App (executed n m)) =
     map (\<lambda>app. map ver_id (appVersions app)) (manager_find_App m)"
  by (simp add: manager_find_Organization_def manager_find_App_def db_executed map_versions_def
      comp_def ver_id_apply_writes)

lemma pass_writes_ids: "pass_writes env vs = map (\<lambda>i. (i, env_id env)) (map ver_id vs)"
  by (simp add: pass_writes_def)

lemma for_apps_ids:
  assumes "map ver_id (concat (map appVersions as)) = map ver_id (concat (map appVersions bs))"
  shows "for_apps pe as m = for_apps pe bs m"
proof (cases pe)
  case (Some env)
  show ?thesis
    unfolding Some for_apps_Some pass_writes_ids by (simp only: assms)
next
  case None
  show ?thesis
  proof (cases "concat (map appVersions as)")
    case Nil
    have "map ver_id (concat (map appVersions bs)) = []"
      using assms by (simp only: Nil list.map)
    then have "concat (map appVersions bs) = []"
      by (simp only: map_is_Nil_conv)
    then show ?thesis unfolding None for_apps_None Nil by (simp only: list.case)
  next
    case (Cons v vs)
    then obtain w ws where b: "concat (map appVersions bs) = w # ws" and "ver_id w = ver_id v"
      using assms by (cases "concat (map appVersions bs)") simp_all
    then show ?thesis unfolding None for_apps_None Cons b by (simp only: list.case)
  qed
qed

lemma for_apps_executed:
  "for_apps pe (manager_find_App (executed n m)) m' = for_apps pe (manager_find_App m) m'"
proof (rule for_apps_ids)
  have "allVersions (db (executed n m)) = map (apply_writes (take n (inflight m))) (allVersions (db m))"
    by (simp only: db_executed allVersions_map_versions)
  then have "map ver_id (allVersions (db (executed n m))) = map ver_id (allVersions (db m))"
    by (simp add: comp_def ver_id_apply_writes)
  then show "map ver_id (concat (map appVersions (manager_find_App (executed n m)))) =
             map ver_id (concat (map appVersions (manager_find_App m)))"
    by (simp only: allVersions_def manager_find_App_def)
qed

lemma for_organizations_at_eq:
  "for_organizations_at progress os m = for_organizations os m"
proof (induction os arbitrary: m)
  case Nil
  show ?case by simp
next
  case (Cons a os)
  show ?case
    by (simp add: for_apps_executed Cons.IH split: prod.splits sum.splits)
qed

text \<open>
  An instance: with the Organizations \<open>O1\<close>, \<open>O2\<close> and then \<open>O0\<close> (no default environment)
  the run fails in the third pass after four updates were issued. If the connection has
  executed the two updates of the first pass by then, the versions hold \<open>E1\<close> at the moment
  of the failure; with all four executed they hold \<open>E3\<close>.
\<close>

lemma three_organizations_progress:
  "fst (up (fresh \<lparr>organizations = [O1, O2, O0], apps = [A1]\<rparr>)) = Inl TypeError \<and>
   inflight (snd (up (fresh \<lparr>organizations = [O1, O2, O0], apps = [A1]\<rparr>))) =
     [(''V1'', ''E1''), (''V2'', ''E1''), (''V1'', ''E3''), (''V2'', ''E3'')] \<and>
   map currentEnvironmentId
     (allVersions (db (executed 2 (snd (up (fresh \<lparr>organizations = [O1, O2, O0], apps = [A1]\<rparr>))))))
     = [Some ''E1'', Some ''E1''] \<and>
   map currentEnvironmentId
     (allVersions (db (executed 4 (snd (up (fresh \<lparr>organizations = [O1, O2, O0], apps = [A1]\<rparr>))))))
     = [Some ''E3'', Some ''E3'']"
  by (simp add: concrete_defs run_defs executed_def)

lemma find_filter: "List.find P xs = (case filter P xs of [] \<Rightarrow> None | x # rest \<Rightarrow> Some x)"
  by (induction xs) simp_all

section \<open>The claims\<close>

text \<open>
  C1. The spec: for every Organization with exactly one default environment, after the
  forward backfill every AppVersion of that Organization's Apps references that Organization's
  default environment; in the scenario where \<open>O1\<close> owns \<open>E1\<close> (default), \<open>E2\<close> and the App
  \<open>A1\<close> with the versions \<open>V1\<close> and \<open>V2\<close>, and \<open>O2\<close> owns only \<open>E3\<close> (default), both
  versions end with \<open>E1\<close>. The code does something else on exactly this store: the App load
  of line 20 has no \<^verbatim>\<open>where\<close> clause, so the pass of \<open>O2\<close> writes \<open>E3\<close> onto the versions
  of \<open>O1\<close>, after the pass of \<open>O1\<close> wrote \<open>E1\<close>. The run completes, four updates are issued,
  and once they are executed both versions reference \<open>E3\<close>.
\<close>

theorem scenario_versions_overwritten:
  "fst (up (fresh scenario)) = Inr () \<and>
   inflight (snd (up (fresh scenario))) =
     [(''V1'', ''E1''), (''V2'', ''E1''), (''V1'', ''E3''), (''V2'', ''E3'')] \<and>
   map (\<lambda>v. (ver_id v, currentEnvironmentId v))
       (allVersions (db (settle (snd (up (fresh scenario)))))) =
     [(''V1'', Some ''E3''), (''V2'', Some ''E3'')]"
  by (simp add: concrete_defs run_defs)

text \<open>
  C2. Because the App load is not scoped to the current Organization, a run over a store in
  which every Organization has a default environment completes and leaves every AppVersion
  of the store, whoever owns it, with the identifier of the default environment of the last
  Organization in iteration order. (Proved for one Organization or more; the claim speaks of
  two or more.)
\<close>

theorem last_organization_wins:
  assumes "manager_find_Organization m \<noteq> []"
    and "\<forall>organization\<in>set (manager_find_Organization m).
           productionEnvironment organization \<noteq> None"
  shows "fst (up m) = Inr () \<and>
    (\<forall>v\<in>set (allVersions (db (settle (snd (up m))))).
       currentEnvironmentId v =
         map_option env_id (productionEnvironment (last (manager_find_Organization m))))"
proof -
  let ?os = "manager_find_Organization m"
  let ?V = "allVersions (db m)"
  have all: "list_all hasDefault ?os"
    using assms(2) by (simp add: list_all_iff hasDefault_def)
  then have tw: "takeWhile hasDefault ?os = ?os"
    by (simp add: list_all_iff)
  have "last ?os \<in> set ?os" using assms(1) by simp
  then obtain env where env: "productionEnvironment (last ?os) = Some env"
    using assms(2) by fastforce
  have split: "?os = butlast ?os @ [last ?os]" using assms(1) by simp
  have "concat (map (org_writes ?V) ?os) =
          concat (map (org_writes ?V) (butlast ?os)) @ org_writes ?V (last ?os)"
    by (subst split) (simp del: append_butlast_last_id)
  then have inf: "inflight (snd (up m)) =
      (inflight m @ concat (map (org_writes ?V) (butlast ?os))) @ pass_writes env ?V"
    by (simp add: up_inflight tw org_writes_def env)
  have ok: "fst (up m) = Inr ()" using all by (simp add: up_fst)
  have "currentEnvironmentId v = Some (env_id env)"
    if "v \<in> set (allVersions (db (settle (snd (up m)))))" for v
  proof -
    from that obtain v0 where v0: "v0 \<in> set ?V"
      and v: "v = apply_writes (inflight (snd (up m))) v0"
      by (auto simp: db_settle_up allVersions_map_versions)
    have "ver_id v0 \<in> ver_id ` set ?V" using v0 by simp
    then show ?thesis unfolding v inf by (rule apply_pass_writes)
  qed
  then show ?thesis using ok env by simp
qed

theorem last_organization_wins_witness:
  "manager_find_Organization (fresh regression) = [O1, O2] \<and>
   map productionEnvironment (manager_find_Organization (fresh regression)) =
     [Some E1, Some E3] \<and>
   fst (up (fresh regression)) = Inr () \<and>
   map currentEnvironmentId (allVersions (db (settle (snd (up (fresh regression)))))) =
     [Some ''E3'', Some ''E3'', Some ''E3'']"
proof -
  have o: "manager_find_Organization (fresh regression) = [O1, O2]"
    by (simp add: fresh_def regression_def manager_find_Organization_def)
  have p: "map productionEnvironment (manager_find_Organization (fresh regression)) =
     [Some E1, Some E3]"
    by (simp add: concrete_defs manager_find_Organization_def productionEnvironment_def)
  have h1: "manager_find_Organization (fresh regression) \<noteq> []"
    using o by simp
  have h2: "\<forall>organization\<in>set (manager_find_Organization (fresh regression)).
      productionEnvironment organization \<noteq> None"
    using p unfolding o by simp
  have "map currentEnvironmentId (allVersions (db (settle (snd (up (fresh regression)))))) =
     map (\<lambda>v. map_option env_id
                 (productionEnvironment (last (manager_find_Organization (fresh regression)))))
       (allVersions (db (settle (snd (up (fresh regression))))))"
    using last_organization_wins [OF h1 h2] by simp
  also have "\<dots> = [Some ''E3'', Some ''E3'', Some ''E3'']"
    by (simp add: concrete_defs run_defs)
  finally show ?thesis using o p last_organization_wins [OF h1 h2] by simp
qed

text \<open>
  C3. The spec: for every store with an Organization that has no default environment, the run
  raises the failure, and no write of that Organization's pass has been issued when it does.
  The first half fails on a store without versions: the dereference that throws sits inside
  the innermost loop, so the run over \<open>O0\<close> (no default environment) and the empty App
  \<open>A0\<close> completes.
\<close>

theorem missing_default_counterexample:
  "productionEnvironment O0 = None \<and>
   O0 \<in> set (manager_find_Organization (fresh \<lparr>organizations = [O0], apps = [A0]\<rparr>)) \<and>
   fst (up (fresh \<lparr>organizations = [O0], apps = [A0]\<rparr>)) \<noteq> Inl TypeError"
  by (simp add: concrete_defs run_defs)

text \<open>
  C3, as the code has it. When some Organization has no default environment and the store
  holds at least one AppVersion, the run fails with the \<^verbatim>\<open>TypeError\<close> of the dereference.
  The updates issued up to the failure are those of the Organizations that precede the first
  one without a default environment: the failing pass has issued none.
\<close>

theorem missing_default_raises:
  assumes "\<exists>organization\<in>set (manager_find_Organization m).
             productionEnvironment organization = None"
    and "allVersions (db m) \<noteq> []"
  shows "fst (up m) = Inl TypeError \<and>
         inflight (snd (up m)) =
           inflight m @ concat (map (org_writes (allVersions (db m)))
                                   (takeWhile hasDefault (manager_find_Organization m)))"
proof -
  have "\<not> list_all hasDefault (manager_find_Organization m)"
    using assms(1) by (auto simp: list_all_iff hasDefault_def)
  then show ?thesis using assms(2) by (simp add: up_fst up_inflight)
qed

theorem missing_default_raises_witness:
  "(\<exists>organization\<in>set (manager_find_Organization
                          (fresh \<lparr>organizations = [O1, O0, O2], apps = [A1]\<rparr>)).
      productionEnvironment organization = None) \<and>
   allVersions (db (fresh \<lparr>organizations = [O1, O0, O2], apps = [A1]\<rparr>)) \<noteq> [] \<and>
   fst (up (fresh \<lparr>organizations = [O1, O0, O2], apps = [A1]\<rparr>)) = Inl TypeError \<and>
   inflight (snd (up (fresh \<lparr>organizations = [O1, O0, O2], apps = [A1]\<rparr>))) =
     [(''V1'', ''E1''), (''V2'', ''E1'')]"
proof -
  let ?m = "fresh \<lparr>organizations = [O1, O0, O2], apps = [A1]\<rparr>"
  have h1: "\<exists>organization\<in>set (manager_find_Organization ?m).
              productionEnvironment organization = None"
    by (simp add: concrete_defs manager_find_Organization_def productionEnvironment_def)
  have h2: "allVersions (db ?m) \<noteq> []"
    by (simp add: concrete_defs allVersions_def)
  have "concat (map (org_writes (allVersions (db ?m)))
                    (takeWhile hasDefault (manager_find_Organization ?m)))
      = [(''V1'', ''E1''), (''V2'', ''E1'')]"
    by (simp add: concrete_defs manager_find_Organization_def productionEnvironment_def
        hasDefault_def org_writes_def pass_writes_def allVersions_def)
  moreover have "inflight ?m = []" by (simp add: fresh_def)
  ultimately show ?thesis using h1 h2 missing_default_raises [OF h1 h2] by simp
qed

text \<open>
  C4. For an Organization with more than one default-flagged environment the resolution is
  deterministic: it is the first default-flagged record of the loaded list (every record
  before it is not flagged), and a run leaves the Organization and its environments in the
  store as they were, so a second run resolves the same record.
\<close>

theorem first_default_is_resolved:
  assumes "organization \<in> set (manager_find_Organization m)"
    and "1 < length (filter isDefault (appEnvironments organization))"
  shows "productionEnvironment organization =
           Some (hd (filter isDefault (appEnvironments organization))) \<and>
    (\<exists>before env after.
        appEnvironments organization = before @ env # after \<and>
        (\<forall>e\<in>set before. \<not> isDefault e) \<and> isDefault env \<and>
        productionEnvironment organization = Some env) \<and>
    organization \<in> set (manager_find_Organization (settle (snd (up m))))"
proof -
  let ?xs = "appEnvironments organization"
  have ne: "filter isDefault ?xs \<noteq> []"
    using assms(2) by auto
  then have a: "productionEnvironment organization = Some (hd (filter isDefault ?xs))"
    by (simp add: productionEnvironment_def find_filter split: list.splits)
  then have "List.find isDefault ?xs = Some (hd (filter isDefault ?xs))"
    by (simp add: productionEnvironment_def)
  then obtain i where i: "i < length ?xs" "isDefault (?xs ! i)"
      "hd (filter isDefault ?xs) = ?xs ! i" "\<forall>j<i. \<not> isDefault (?xs ! j)"
    unfolding find_Some_iff by blast
  have s: "?xs = take i ?xs @ (?xs ! i) # drop (Suc i) ?xs"
    using i(1) by (simp add: id_take_nth_drop)
  have "\<forall>e\<in>set (take i ?xs). \<not> isDefault e"
    using i(1,4) by (auto simp: in_set_conv_nth)
  then have b: "\<exists>before env after.
        ?xs = before @ env # after \<and>
        (\<forall>e\<in>set before. \<not> isDefault e) \<and> isDefault env \<and>
        productionEnvironment organization = Some env"
    using s i(2,3) a by metis
  have c: "manager_find_Organization (settle (snd (up m))) = manager_find_Organization m"
    by (simp add: manager_find_Organization_def db_settle_up organizations_map_versions)
  show ?thesis using a b c assms(1) by simp
qed

theorem first_default_is_resolved_witness:
  "O4 \<in> set (manager_find_Organization (fresh \<lparr>organizations = [O4], apps = [A1]\<rparr>)) \<and>
   1 < length (filter isDefault (appEnvironments O4)) \<and>
   appEnvironments O4 = [E2, E1, E4] \<and>
   productionEnvironment O4 = Some E1 \<and>
   O4 \<in> set (manager_find_Organization
               (settle (snd (up (fresh \<lparr>organizations = [O4], apps = [A1]\<rparr>)))))"
proof -
  have h1: "O4 \<in> set (manager_find_Organization (fresh \<lparr>organizations = [O4], apps = [A1]\<rparr>))"
    by (simp add: manager_find_Organization_def fresh_def)
  have h2: "1 < length (filter isDefault (appEnvironments O4))"
    by (simp add: concrete_defs)
  have "hd (filter isDefault (appEnvironments O4)) = E1"
    by (simp add: concrete_defs)
  moreover have "appEnvironments O4 = [E2, E1, E4]"
    by (simp add: O4_def)
  ultimately show ?thesis using h1 h2 first_default_is_resolved [OF h1 h2] by simp
qed

text \<open>
  C5. Running the backfill twice in succession, with the updates of the first run executed
  before the second starts, ends with the same outcome and the same store as running it
  once. It holds for every manager, whatever the outcome of the run and whatever updates
  were already in flight.
\<close>

theorem up_twice:
  "fst (up (settle (snd (up m)))) = fst (up m) \<and>
   db (settle (snd (up (settle (snd (up m)))))) = db (settle (snd (up m)))"
proof -
  let ?os = "manager_find_Organization m"
  let ?V = "allVersions (db m)"
  let ?W = "concat (map (org_writes ?V) (takeWhile hasDefault ?os))"
  let ?m1 = "settle (snd (up m))"
  have w1: "inflight (snd (up m)) = inflight m @ ?W" by (rule up_inflight)
  have d1: "db ?m1 = map_versions (apply_writes (inflight m @ ?W)) (db m)"
    by (simp only: db_settle_up w1)
  have i1: "inflight ?m1 = []" by (simp add: settle_def)
  have o1: "manager_find_Organization ?m1 = ?os"
    by (simp add: manager_find_Organization_def d1 organizations_map_versions)
  have v1: "allVersions (db ?m1) = map (apply_writes (inflight m @ ?W)) ?V"
    by (simp only: d1 allVersions_map_versions)
  have ww: "org_writes (map (apply_writes ws) vs) = org_writes vs" for ws vs
    by (rule ext) (rule org_writes_apply_writes)
  have w2: "inflight (snd (up ?m1)) = ?W"
    by (simp only: up_inflight [of ?m1] i1 o1 v1 ww append_Nil)
  have f: "fst (up ?m1) = fst (up m)"
    by (simp add: up_fst [of ?m1] up_fst [of m] o1 v1)
  have "db (settle (snd (up ?m1))) = map_versions (apply_writes ?W) (db ?m1)"
    by (simp only: db_settle_up w2)
  also have "\<dots> = map_versions (apply_writes ?W \<circ> apply_writes (inflight m @ ?W)) (db m)"
    by (simp only: d1 map_versions_comp)
  also have "apply_writes ?W \<circ> apply_writes (inflight m @ ?W) = apply_writes (inflight m @ ?W)"
    by (rule ext) (simp add: apply_writes_append apply_writes_twice)
  finally show ?thesis using f d1 by simp
qed

text \<open>
  C6. The backward entry point \<^verbatim>\<open>down\<close> completes, issues no write and leaves the manager,
  and with it every Organization, AppEnvironment, App and AppVersion, exactly as it was.
\<close>

theorem down_no_op:
  "fst (down m) = Inr () \<and> snd (down m) = m \<and>
   db (snd (down m)) = db m \<and> inflight (snd (down m)) = inflight m"
  by (simp add: down_def)

text \<open>
  C7. A run of the forward backfill, whatever its outcome, mutates only the
  \<open>currentEnvironmentId\<close> of AppVersion records. All it hands to the manager are updates of
  that field, selected by version identifier (the list is given in full). Whatever number
  \<open>k\<close> of earlier updates the connection had executed when the run started and whatever
  number \<open>n\<close> of updates it has executed at a moment during or after the run, the
  Organizations and their environments are the same, the Apps and their versions are the
  same in number, order and every other field, and the two stores are equal once every
  \<open>currentEnvironmentId\<close> is blanked: no record was created or deleted. The fields are those
  of the spec's data model.
\<close>

theorem up_frame:
  "inflight (snd (up m)) =
     inflight m @ concat (map (org_writes (allVersions (db m)))
                             (takeWhile hasDefault (manager_find_Organization m))) \<and>
   organizations (db (executed n (snd (up m)))) = organizations (db (executed k m)) \<and>
   map (\<lambda>app. (app_id app, organizationId app, map (\<lambda>v. (ver_id v, ver_name v)) (appVersions app)))
       (apps (db (executed n (snd (up m))))) =
   map (\<lambda>app. (app_id app, organizationId app, map (\<lambda>v. (ver_id v, ver_name v)) (appVersions app)))
       (apps (db (executed k m))) \<and>
   forget_envs (db (executed n (snd (up m)))) = forget_envs (db (executed k m))"
proof -
  have f: "forget_envs (map_versions (apply_writes ws) s) = forget_envs s" for ws s
    by (rule forget_envs_map_versions) (rule forget_env_apply_writes)
  have a: "map (\<lambda>app. (app_id app, organizationId app,
                     map (\<lambda>v. (ver_id v, ver_name v)) (appVersions app)))
       (apps (map_versions (apply_writes ws) s)) =
     map (\<lambda>app. (app_id app, organizationId app,
                     map (\<lambda>v. (ver_id v, ver_name v)) (appVersions app))) (apps s)" for ws s
    by (simp add: map_versions_def comp_def ver_id_apply_writes ver_name_apply_writes)
  show ?thesis
    unfolding db_executed up_db
    by (simp only: f a organizations_map_versions up_inflight simp_thms)
qed

text \<open>
  C8. The spec: no write is fired without awaiting its acknowledgment, so no write is pending
  when the run signals completion. The source calls \<^verbatim>\<open>manager.update\<close> on line 27 without
  \<^verbatim>\<open>await\<close> and drops the promise. On the store with the Organization \<open>O1\<close> and its App
  \<open>A1\<close> the run completes while both updates are still in flight and the store has not
  changed.
\<close>

theorem updates_left_in_flight:
  "fst (up (fresh \<lparr>organizations = [O1], apps = [A1]\<rparr>)) = Inr () \<and>
   inflight (snd (up (fresh \<lparr>organizations = [O1], apps = [A1]\<rparr>))) =
     [(''V1'', ''E1''), (''V2'', ''E1'')] \<and>
   db (snd (up (fresh \<lparr>organizations = [O1], apps = [A1]\<rparr>))) =
     \<lparr>organizations = [O1], apps = [A1]\<rparr>"
  by (simp add: concrete_defs run_defs)

text \<open>
  C9. When no App of the store owns an AppVersion, the forward backfill completes without
  error, issues no write and logs nothing, also when some Organization has no default
  environment: the dereference of the resolved environment is only reached inside the
  innermost loop.
\<close>

theorem no_versions_no_error:
  assumes "\<forall>app\<in>set (manager_find_App m). appVersions app = []"
  shows "up m = (Inr (), m)"
proof -
  have e: "allVersions (db m) = []"
    using assms by (simp add: allVersions_def manager_find_App_def)
  have "for_organizations os m = (Inr (), m)" for os
  proof (induction os)
    case Nil
    show ?case by simp
  next
    case (Cons a os)
    show ?case
    proof (cases "productionEnvironment a")
      case None
      show ?thesis by (simp only: for_organizations_None_empty [OF None e] Cons.IH)
    next
      case (Some env)
      show ?thesis
        by (simp only: for_organizations_Some [OF Some] e Cons.IH)
           (simp add: pass_writes_def Cons.IH)
    qed
  qed
  then show ?thesis by (simp add: up_def backFillNewColumn_def)
qed

theorem no_versions_no_error_witness:
  "map appVersions (manager_find_App (fresh \<lparr>organizations = [O0, O2], apps = [A0]\<rparr>)) = [[]] \<and>
   productionEnvironment O0 = None \<and>
   up (fresh \<lparr>organizations = [O0, O2], apps = [A0]\<rparr>) =
     (Inr (), fresh \<lparr>organizations = [O0, O2], apps = [A0]\<rparr>)"
proof -
  have a: "map appVersions (manager_find_App (fresh \<lparr>organizations = [O0, O2], apps = [A0]\<rparr>))
             = [[]]"
    by (simp add: manager_find_App_def fresh_def A0_def)
  then have h: "\<forall>app\<in>set (manager_find_App (fresh \<lparr>organizations = [O0, O2], apps = [A0]\<rparr>)).
             appVersions app = []"
    by (simp add: manager_find_App_def fresh_def)
  have "productionEnvironment O0 = None"
    by (simp add: productionEnvironment_def O0_def E2_def)
  then show ?thesis using a no_versions_no_error [OF h] by simp
qed

text \<open>
  C10. In a run that completes without error, the updates issued are, Organization after
  Organization, one for each AppVersion of the store, each writing the identifier of that
  Organization's resolved default environment; their number is the number of Organizations
  times the number of AppVersions.
\<close>

theorem writes_per_organization:
  assumes "fst (up m) = Inr ()"
  shows "inflight (snd (up m)) =
           inflight m @ concat (map (org_writes (allVersions (db m)))
                                   (manager_find_Organization m)) \<and>
         length (inflight (snd (up m))) =
           length (inflight m) +
           length (manager_find_Organization m) * length (allVersions (db m)) \<and>
         (allVersions (db m) \<noteq> [] \<longrightarrow>
            (\<forall>organization\<in>set (manager_find_Organization m).
               productionEnvironment organization \<noteq> None))"
proof (cases "allVersions (db m) = []")
  case True
  then show ?thesis by (simp add: up_inflight org_writes_Nil)
next
  case False
  then have all: "list_all hasDefault (manager_find_Organization m)"
    using assms by (simp add: up_fst split: if_splits)
  then have tw: "takeWhile hasDefault (manager_find_Organization m) = manager_find_Organization m"
    by (simp add: list_all_iff)
  have len: "list_all hasDefault os \<Longrightarrow>
      length (concat (map (org_writes (allVersions (db m))) os)) =
        length os * length (allVersions (db m))" for os
    by (induction os) (auto simp: hasDefault_def org_writes_def pass_writes_def)
  show ?thesis using all len [OF all]
    by (simp add: up_inflight tw) (simp add: list_all_iff hasDefault_def)
qed

theorem writes_per_organization_witness:
  "fst (up (fresh regression)) = Inr () \<and>
   allVersions (db (fresh regression)) \<noteq> [] \<and>
   inflight (snd (up (fresh regression))) =
     [(''V1'', ''E1''), (''V2'', ''E1''), (''V3'', ''E1''),
      (''V1'', ''E3''), (''V2'', ''E3''), (''V3'', ''E3'')] \<and>
   length (inflight (snd (up (fresh regression)))) = 2 * 3"
proof -
  have h: "fst (up (fresh regression)) = Inr ()"
    by (simp add: concrete_defs run_defs)
  have "concat (map (org_writes (allVersions (db (fresh regression))))
          (manager_find_Organization (fresh regression))) =
     [(''V1'', ''E1''), (''V2'', ''E1''), (''V3'', ''E1''),
      (''V1'', ''E3''), (''V2'', ''E3''), (''V3'', ''E3'')]"
    by (simp add: concrete_defs manager_find_Organization_def productionEnvironment_def
        org_writes_def pass_writes_def allVersions_def)
  moreover have "inflight (fresh regression) = []" by (simp add: fresh_def)
  moreover have "allVersions (db (fresh regression)) \<noteq> []"
    by (simp add: concrete_defs allVersions_def)
  ultimately show ?thesis using h writes_per_organization [OF h] by simp
qed

end
